theory Spec2Isabelle
  imports Complex_Main "HOL-Library.Word"
begin

section \<open>ImageAnalyzer\<close>

text \<open>
  The analyzer derives uniqueColors (the size of a map, a natural number) and
  complexity (a quotient of counts times 100) from the probe and then classifies
  the probe inline in analyze. The classification block and the two scoring
  helpers are pure functions of these numbers. Numbers of the source are IEEE doubles;
  they are modelled as exact rationals.
\<close>

text \<open>The inline classification of ImageAnalyzer.analyze, v4.0.0.\<close>

definition classify :: "nat \<Rightarrow> rat \<Rightarrow> string" where
  "classify uniqueColors complexity =
     (if uniqueColors < 256 then ''graphic''
      else if complexity < 5 then ''simple''
      else if complexity > 20 then ''complex''
      else ''photo'')"

text \<open>The same block in the embedded v3.0.0 copy of the library.\<close>

definition classify_v3 :: "nat \<Rightarrow> rat \<Rightarrow> string" where
  "classify_v3 uniqueColors complexity =
     (if uniqueColors < 256 then ''graphic''
      else if complexity < 5 then ''simple''
      else if complexity > 20 then ''complex''
      else ''photo'')"

definition calculateRecommendedQuality :: "rat \<Rightarrow> string \<Rightarrow> bool \<Rightarrow> rat" where
  "calculateRecommendedQuality complexity imageType hasTransparency =
     (if imageType = ''graphic'' \<or> imageType = ''simple'' then 65 / 100
      else if hasTransparency \<and> complexity < 10 then 7 / 10
      else if complexity > 20 then 48 / 100
      else 58 / 100)"

definition calculateRecommendedQuality_v3 :: "rat \<Rightarrow> string \<Rightarrow> bool \<Rightarrow> rat" where
  "calculateRecommendedQuality_v3 complexity imageType hasTransparency =
     (if imageType = ''graphic'' \<or> imageType = ''simple'' then 85 / 100
      else if hasTransparency \<and> complexity < 10 then 88 / 100
      else if complexity > 20 then 75 / 100
      else 8 / 10)"

definition calculateCompressibility :: "nat \<Rightarrow> rat \<Rightarrow> int" where
  "calculateCompressibility uniqueColors complexity =
     (let score = 50;
          score = (if uniqueColors < 256 then score + 30
                   else if uniqueColors < 1000 then score + 20
                   else if uniqueColors < 5000 then score + 10
                   else score);
          score = (if complexity < 5 then score + 20
                   else if complexity < 10 then score + 10
                   else score)
      in min 100 score)"

definition calculateCompressibility_v3 :: "nat \<Rightarrow> rat \<Rightarrow> int" where
  "calculateCompressibility_v3 uniqueColors complexity =
     (let score = 50;
          score = (if uniqueColors < 256 then score + 30
                   else if uniqueColors < 1000 then score + 20
                   else if uniqueColors < 5000 then score + 10
                   else score);
          score = (if complexity < 5 then score + 20
                   else if complexity < 10 then score + 10
                   else score)
      in min 100 score)"


section \<open>CompressionEngine\<close>

text \<open>
  The encoder is the browser: \<^verbatim>\<open>ImageUtils.canvasToBlob\<close> wraps
  \<^verbatim>\<open>HTMLCanvasElement.toBlob\<close>. The browser is a parameter of the model: what
  \<^verbatim>\<open>toBlob\<close> hands to its callback (\<open>None\<close> for null), whether a value is a canvas
  element, and what canvas \<^verbatim>\<open>scaleCanvas\<close> draws. A blob is its bytes, and
  \<^verbatim>\<open>blob.size\<close> is their number. Every call of \<^verbatim>\<open>canvasToBlob\<close> is appended to
  a log that is threaded through the engine, so that calls can be counted.
\<close>

datatype error = InvalidCanvas | FailedToCreateBlob

type_synonym blob = "8 word list"

record 'c browser =
  isCanvas :: "'c \<Rightarrow> bool"
  toBlob :: "'c \<Rightarrow> string \<Rightarrow> rat \<Rightarrow> blob option"
  drawScaled :: "'c \<Rightarrow> rat \<Rightarrow> 'c"

type_synonym 'c calls = "('c \<times> string \<times> rat) list"

definition canvasToBlob ::
  "'c browser \<Rightarrow> 'c \<Rightarrow> string \<Rightarrow> rat \<Rightarrow> 'c calls \<Rightarrow> (error + blob) \<times> 'c calls" where
  "canvasToBlob env canvas mimeType quality w =
     (if \<not> isCanvas env canvas then (Inl InvalidCanvas, w @ [(canvas, mimeType, quality)])
      else case toBlob env canvas mimeType quality of
             Some blob \<Rightarrow> (Inr blob, w @ [(canvas, mimeType, quality)])
           | None \<Rightarrow> (Inl FailedToCreateBlob, w @ [(canvas, mimeType, quality)]))"

record profile =
  range_q :: rat
  boost :: rat
  tolerance :: rat
  iterations :: nat

definition MAXIMUM :: string where "MAXIMUM = ''maximum''"
definition HIGH :: string where "HIGH = ''high''"
definition BALANCED :: string where "BALANCED = ''balanced''"
definition AGGRESSIVE :: string where "AGGRESSIVE = ''aggressive''"
definition EXTREME :: string where "EXTREME = ''extreme''"

text \<open>
  The table is keyed by the five mode strings; any other mode falls back to the
  aggressive entry. The source looks the mode up on a plain object, so the names of
  the properties that every object inherits (such as "constructor") are not modes of
  the model.
\<close>

definition getQualityAdjustment :: "string \<Rightarrow> profile" where
  "getQualityAdjustment mode =
     (if mode = MAXIMUM then
        \<lparr>range_q = 2 / 10, boost = 6 / 100, tolerance = 115 / 100, iterations = 10\<rparr>
      else if mode = HIGH then
        \<lparr>range_q = 3 / 10, boost = 2 / 100, tolerance = 11 / 10, iterations = 12\<rparr>
      else if mode = BALANCED then
        \<lparr>range_q = 4 / 10, boost = - (3 / 100), tolerance = 103 / 100, iterations = 14\<rparr>
      else if mode = EXTREME then
        \<lparr>range_q = 6 / 10, boost = - (15 / 100), tolerance = 88 / 100, iterations = 24\<rparr>
      else
        \<lparr>range_q = 5 / 10, boost = - (1 / 10), tolerance = 96 / 100, iterations = 18\<rparr>)"

record analysis =
  recommendedQuality :: rat
  imageType :: string
  hasTransparency :: bool
  suggestedFormat :: string

text \<open>The local variables of the search loop of \<^verbatim>\<open>compress\<close>.\<close>

record search =
  minQuality :: rat
  maxQuality :: rat
  bestBlob :: "blob option"
  iterations_run :: nat

function search_loop ::
  "'c browser \<Rightarrow> 'c \<Rightarrow> string \<Rightarrow> rat \<Rightarrow> profile \<Rightarrow> search \<Rightarrow> 'c calls
     \<Rightarrow> (error + search) \<times> 'c calls" where
  "search_loop env canvas format targetSize qa s w =
     (if iterations_run s < iterations qa \<and> maxQuality s - minQuality s > 2 / 1000 then
        (let quality = (minQuality s + maxQuality s) / 2 in
         case canvasToBlob env canvas format quality w of
           (Inl e, w') \<Rightarrow> (Inl e, w')
         | (Inr blob, w') \<Rightarrow>
             search_loop env canvas format targetSize qa
               ((if of_nat (length blob) \<le> targetSize * tolerance qa
                 then s\<lparr>bestBlob := Some blob, minQuality := quality\<rparr>
                 else s\<lparr>maxQuality := quality\<rparr>)
                \<lparr>iterations_run := iterations_run s + 1\<rparr>) w')
      else (Inr s, w))"
  by pat_completeness auto
termination
  by (relation "measure (\<lambda>(env, canvas, format, targetSize, qa, s, w).
        iterations qa - iterations_run s)") auto

definition compress ::
  "'c browser \<Rightarrow> 'c \<Rightarrow> string \<Rightarrow> rat \<Rightarrow> analysis \<Rightarrow> string option \<Rightarrow> 'c calls
     \<Rightarrow> (error + blob) \<times> 'c calls" where
  "compress env canvas format targetSize a qualityMode w =
     (let mode = (case qualityMode of None \<Rightarrow> AGGRESSIVE | Some m \<Rightarrow> m);
          baseQuality = recommendedQuality a;
          qualityAdjustment = getQualityAdjustment mode;
          s0 = \<lparr>minQuality = max (2 / 100) (baseQuality - range_q qualityAdjustment),
                maxQuality = min (8 / 10) (baseQuality + boost qualityAdjustment),
                bestBlob = None,
                iterations_run = 0\<rparr>
      in case search_loop env canvas format targetSize qualityAdjustment s0 w of
           (Inl e, w') \<Rightarrow> (Inl e, w')
         | (Inr s, w') \<Rightarrow>
             (case bestBlob s of
                None \<Rightarrow> canvasToBlob env canvas format (minQuality s) w'
              | Some blob \<Rightarrow> (Inr blob, w')))"

definition scales :: "rat list" where
  "scales = [94 / 100, 9 / 10, 86 / 100, 82 / 100, 78 / 100, 74 / 100, 7 / 10, 66 / 100,
             62 / 100, 58 / 100, 54 / 100, 5 / 10, 46 / 100, 42 / 100, 38 / 100, 35 / 100]"

text \<open>The \<^verbatim>\<open>for (const scale of scales)\<close> loop, followed by the last-resort encode.\<close>

fun optimize_loop ::
  "'c browser \<Rightarrow> 'c \<Rightarrow> string \<Rightarrow> rat \<Rightarrow> analysis \<Rightarrow> rat list \<Rightarrow> 'c calls
     \<Rightarrow> (error + blob) \<times> 'c calls" where
  "optimize_loop env canvas format targetSize a [] w =
     (let finalCanvas = drawScaled env canvas (32 / 100)
      in canvasToBlob env finalCanvas format (2 / 100) w)"
| "optimize_loop env canvas format targetSize a (scale # rest) w =
     (let tempCanvas = drawScaled env canvas scale in
      case compress env tempCanvas format targetSize a (Some EXTREME) w of
        (Inl e, w') \<Rightarrow> (Inl e, w')
      | (Inr blob, w') \<Rightarrow>
          if of_nat (length blob) \<le> targetSize then (Inr blob, w')
          else optimize_loop env canvas format targetSize a rest w')"

definition advancedOptimize ::
  "'c browser \<Rightarrow> 'c \<Rightarrow> string \<Rightarrow> rat \<Rightarrow> analysis \<Rightarrow> 'c calls
     \<Rightarrow> (error + blob) \<times> 'c calls" where
  "advancedOptimize env canvas format targetSize a w =
     optimize_loop env canvas format targetSize a scales w"

text \<open>
  Names for the parts of one iteration of the search loop: its guard, the quality it
  probes, and the state it leaves after a probe that returned a blob.
\<close>

definition probing :: "profile \<Rightarrow> search \<Rightarrow> bool" where
  "probing qa s \<longleftrightarrow>
     iterations_run s < iterations qa \<and> maxQuality s - minQuality s > 2 / 1000"

definition midpoint :: "search \<Rightarrow> rat" where
  "midpoint s = (minQuality s + maxQuality s) / 2"

definition advance :: "rat \<Rightarrow> profile \<Rightarrow> search \<Rightarrow> blob \<Rightarrow> search" where
  "advance targetSize qa s blob =
     (if of_nat (length blob) \<le> targetSize * tolerance qa
      then s\<lparr>bestBlob := Some blob, minQuality := midpoint s\<rparr>
      else s\<lparr>maxQuality := midpoint s\<rparr>)
     \<lparr>iterations_run := iterations_run s + 1\<rparr>"


text \<open>
  A concrete browser and analysis report on which the engine can be run: a canvas is
  its area as a rational, every value is a canvas, the encoder returns
  \<open>\<lfloor>1000 c q\<rfloor>\<close> zero bytes for area \<open>c\<close> at quality \<open>q\<close>, and scaling
  multiplies the area by the ratio.
\<close>

definition example_browser :: "rat browser" where
  "example_browser =
     \<lparr>isCanvas = (\<lambda>_. True),
      toBlob = (\<lambda>c f q. Some (replicate (nat \<lfloor>c * q * 1000\<rfloor>) 0)),
      drawScaled = (\<lambda>c s. c * s)\<rparr>"

definition example_analysis :: analysis where
  "example_analysis =
     \<lparr>recommendedQuality = 13 / 100, imageType = ''photo'', hasTransparency = False,
      suggestedFormat = ''image/jpeg''\<rparr>"

section \<open>UltraCompressPro._processVersions\<close>

text \<open>
  The body of the \<^verbatim>\<open>try\<close> block runs host operations that can throw: reading the
  fields of a preset that is null or undefined, drawing and preprocessing the canvas,
  the encoder, building the metadata and creating the preview URL. The host operations
  are parameters; \<^verbatim>\<open>compress\<close> and \<^verbatim>\<open>advancedOptimize\<close> are the engine above. The
  elapsed time and the timestamps that the metadata also records are outside the model.
  \<^verbatim>\<open>emit\<close> catches what its listeners throw, so it never throws itself.
\<close>

datatype failure = TypeError | HostError string | EncodingError error

record preset =
  maxDimension :: rat
  targetSize :: rat
  aspectRatio :: "rat option"

record options =
  quality :: "string option"
  outputFormat :: "string option"

record ('i, 'f, 'c, 'd, 'm) host =
  encoder :: "'c browser"
  calculateDimensions :: "'i \<Rightarrow> rat \<Rightarrow> rat option \<Rightarrow> 'd"
  createOptimizedCanvas :: "'i \<Rightarrow> 'd \<Rightarrow> analysis \<Rightarrow> string + 'c"
  generateMetadata ::
    "'f \<Rightarrow> blob \<Rightarrow> 'd \<Rightarrow> string \<Rightarrow> analysis \<Rightarrow> preset \<Rightarrow> nat \<Rightarrow> string + 'm"
  createObjectURL :: "blob \<Rightarrow> string + string"

record 'm version =
  blob :: blob
  metadata :: 'm
  preview :: string
  dataUrl :: "string option"

datatype 'm event = ConsoleError nat failure | VersionComplete nat nat 'm

text \<open>One pass through the \<^verbatim>\<open>try\<close> block, for the preset at index \<open>i\<close>.\<close>

definition processVersion ::
  "('i, 'f, 'c, 'd, 'm) host \<Rightarrow> 'i \<Rightarrow> 'f \<Rightarrow> analysis \<Rightarrow> options \<Rightarrow> nat
     \<Rightarrow> preset option \<Rightarrow> 'c calls \<Rightarrow> (failure + 'm version) \<times> 'c calls" where
  "processVersion h img file a opts i p w =
     (case p of
        None \<Rightarrow> (Inl TypeError, w)
      | Some preset \<Rightarrow>
          (let dimensions = calculateDimensions h img (maxDimension preset) (aspectRatio preset)
           in case createOptimizedCanvas h img dimensions a of
                Inl msg \<Rightarrow> (Inl (HostError msg), w)
              | Inr canvas \<Rightarrow>
                  (let fmt = (case outputFormat opts of
                                None \<Rightarrow> suggestedFormat a
                              | Some s \<Rightarrow> if s = [] then suggestedFormat a else s)
                   in case compress (encoder h) canvas fmt (targetSize preset) a
                             (quality opts) w of
                        (Inl e, w1) \<Rightarrow> (Inl (EncodingError e), w1)
                      | (Inr blob1, w1) \<Rightarrow>
                          (case (if of_nat (length blob1) > targetSize preset * (112 / 100)
                                 then advancedOptimize (encoder h) canvas fmt
                                        (targetSize preset) a w1
                                 else (Inr blob1, w1)) of
                             (Inl e, w2) \<Rightarrow> (Inl (EncodingError e), w2)
                           | (Inr blob2, w2) \<Rightarrow>
                               (case generateMetadata h file blob2 dimensions fmt a preset i of
                                  Inl msg \<Rightarrow> (Inl (HostError msg), w2)
                                | Inr md \<Rightarrow>
                                    (case createObjectURL h blob2 of
                                       Inl msg \<Rightarrow> (Inl (HostError msg), w2)
                                     | Inr url \<Rightarrow>
                                         (Inr \<lparr>blob = blob2, metadata = md, preview = url,
                                               dataUrl = None\<rparr>, w2)))))))"

text \<open>
  The \<^verbatim>\<open>for\<close> loop over the presets from index \<open>i\<close>, with the versions pushed so
  far, the console and event output so far, and the encoder log. \<open>n\<close> is
  \<^verbatim>\<open>presets.length\<close>.
\<close>

fun processVersions_loop ::
  "('i, 'f, 'c, 'd, 'm) host \<Rightarrow> 'i \<Rightarrow> 'f \<Rightarrow> analysis \<Rightarrow> options \<Rightarrow> nat
     \<Rightarrow> preset option list \<Rightarrow> nat \<Rightarrow> 'm version list \<Rightarrow> 'm event list \<Rightarrow> 'c calls
     \<Rightarrow> 'm version list \<times> 'm event list \<times> 'c calls" where
  "processVersions_loop h img file a opts n [] i versions out w = (versions, out, w)"
| "processVersions_loop h img file a opts n (p # rest) i versions out w =
     (case processVersion h img file a opts i p w of
        (Inr v, w') \<Rightarrow>
          processVersions_loop h img file a opts n rest (i + 1) (versions @ [v])
            (out @ [VersionComplete i n (metadata v)]) w'
      | (Inl e, w') \<Rightarrow>
          processVersions_loop h img file a opts n rest (i + 1) versions
            (out @ [ConsoleError i e]) w')"

definition processVersions ::
  "('i, 'f, 'c, 'd, 'm) host \<Rightarrow> 'i \<Rightarrow> 'f \<Rightarrow> preset option list \<Rightarrow> analysis \<Rightarrow> options
     \<Rightarrow> 'm event list \<Rightarrow> 'c calls \<Rightarrow> 'm version list \<times> 'm event list \<times> 'c calls" where
  "processVersions h img file presets a opts out w =
     processVersions_loop h img file a opts (length presets) presets 0 [] out w"

section \<open>AdvancedProcessor\<close>

text \<open>
  A canvas is its \<^verbatim>\<open>ImageData\<close>: \<^verbatim>\<open>getImageData(0, 0, width, height)\<close> yields the
  flat RGBA buffer of \<open>width * height * 4\<close> bytes, each stage works on that buffer, and
  \<^verbatim>\<open>putImageData\<close> stores it back unchanged. The buffer is a \<^verbatim>\<open>Uint8ClampedArray\<close>:
  a number stored into it is clamped to 0..255 and rounded to the nearest integer, ties
  to even. Doubles are modelled as exact rationals, or as reals where the source takes
  a square root or an exponential; the edge map, a \<^verbatim>\<open>Float32Array\<close>, holds reals.
\<close>

type_synonym byte = "8 word"

definition byte_value :: "byte \<Rightarrow> 'a::floor_ceiling" where
  "byte_value b = of_nat (unat b)"

text \<open>\<^verbatim>\<open>Math.round\<close>: the nearest integer, ties towards plus infinity.\<close>

definition math_round :: "'a::floor_ceiling \<Rightarrow> int" where
  "math_round x = \<lfloor>x + 1 / 2\<rfloor>"

definition toUint8Clamp :: "'a::floor_ceiling \<Rightarrow> byte" where
  "toUint8Clamp x =
     (let c = min (max x 0) 255; f = \<lfloor>c\<rfloor>
      in word_of_int (if of_int f + 1 / 2 < c then f + 1
                      else if c < of_int f + 1 / 2 then f
                      else if even f then f else f + 1))"

subsection \<open>detectEdges\<close>

definition sobelX :: "real list list" where
  "sobelX = [[- 1, 0, 1], [- 2, 0, 2], [- 1, 0, 1]]"

definition sobelY :: "real list list" where
  "sobelY = [[- 1, - 2, - 1], [0, 0, 0], [1, 2, 1]]"

text \<open>The two inner loops over \<open>ky\<close> and \<open>kx\<close>, accumulating \<open>(gx, gy)\<close>.\<close>

definition gradient :: "byte list \<Rightarrow> nat \<Rightarrow> nat \<Rightarrow> nat \<Rightarrow> real \<times> real" where
  "gradient data width x y =
     fold (\<lambda>(ky, kx) (gx, gy).
             let i = nat ((int y + ky) * int width + (int x + kx)) * 4;
                 gray = (byte_value (data ! i) + byte_value (data ! (i + 1))
                           + byte_value (data ! (i + 2))) / 3
             in (gx + gray * sobelX ! nat (ky + 1) ! nat (kx + 1),
                 gy + gray * sobelY ! nat (ky + 1) ! nat (kx + 1)))
          [(ky, kx). ky \<leftarrow> [- 1, 0, 1], kx \<leftarrow> [- 1, 0, 1]] (0, 0)"

definition detectEdges :: "byte list \<Rightarrow> nat \<Rightarrow> nat \<Rightarrow> real list" where
  "detectEdges data width height =
     fold (\<lambda>y edgeMap.
        fold (\<lambda>x edgeMap.
           let (gx, gy) = gradient data width x y;
               magnitude = sqrt (gx * gx + gy * gy) / 255
           in edgeMap[y * width + x := min 1 magnitude])
          [1..<width - 1] edgeMap)
       [1..<height - 1] (replicate (width * height) 0)"




subsection \<open>applyChromaSubsampling\<close>

text \<open>The values of a loop variable that starts at 0 and advances by 2 below \<open>n\<close>.\<close>

definition by_twos :: "nat \<Rightarrow> nat list" where
  "by_twos n = map (\<lambda>k. 2 * k) [0..<(n + 1) div 2]"

text \<open>The pixels of the 2x2 block at \<open>(x, y)\<close> that lie inside the image.\<close>

definition block_offsets :: "nat \<Rightarrow> nat \<Rightarrow> nat \<Rightarrow> nat \<Rightarrow> (nat \<times> nat) list" where
  "block_offsets width height x y =
     concat (map (\<lambda>dy. if y + dy < height
                         then concat (map (\<lambda>dx. if x + dx < width then [(dy, dx)] else [])
                                        [0..<2])
                         else []) [0..<2])"

definition chroma_block ::
  "real \<Rightarrow> nat \<Rightarrow> nat \<Rightarrow> nat \<Rightarrow> nat \<Rightarrow> byte list \<Rightarrow> byte list" where
  "chroma_block strength width height y x data =
     (let offsets = block_offsets width height x y;
          cbSum = sum_list (map (\<lambda>(dy, dx).
                    let i = ((y + dy) * width + (x + dx)) * 4;
                        r = byte_value (data ! i);
                        g = byte_value (data ! (i + 1));
                        b = byte_value (data ! (i + 2))
                    in 128 - 168736 / 1000000 * r - 331264 / 1000000 * g + 5 / 10 * b)
                    offsets);
          crSum = sum_list (map (\<lambda>(dy, dx).
                    let i = ((y + dy) * width + (x + dx)) * 4;
                        r = byte_value (data ! i);
                        g = byte_value (data ! (i + 1));
                        b = byte_value (data ! (i + 2))
                    in 128 + 5 / 10 * r - 418688 / 1000000 * g - 81312 / 1000000 * b)
                    offsets);
          count = of_nat (length offsets);
          cbAvg = cbSum / count;
          crAvg = crSum / count
      in fold (\<lambda>(dy, dx) data.
                 let i = ((y + dy) * width + (x + dx)) * 4;
                     r = byte_value (data ! i);
                     g = byte_value (data ! (i + 1));
                     b = byte_value (data ! (i + 2));
                     yVal = 299 / 1000 * r + 587 / 1000 * g + 114 / 1000 * b;
                     newR = yVal + 1402 / 1000 * (crAvg - 128);
                     newG = yVal - 344136 / 1000000 * (cbAvg - 128)
                              - 714136 / 1000000 * (crAvg - 128);
                     newB = yVal + 1772 / 1000 * (cbAvg - 128)
                 in data[i := toUint8Clamp (r * (1 - strength) + newR * strength),
                         i + 1 := toUint8Clamp (g * (1 - strength) + newG * strength),
                         i + 2 := toUint8Clamp (b * (1 - strength) + newB * strength)])
              offsets data)"

definition applyChromaSubsampling :: "byte list \<Rightarrow> nat \<Rightarrow> nat \<Rightarrow> real \<Rightarrow> byte list" where
  "applyChromaSubsampling data width height strength =
     fold (\<lambda>y data. fold (chroma_block strength width height y) (by_twos width) data)
          (by_twos height) data"

subsection \<open>applySelectiveBlur\<close>

text \<open>
  For \<open>sigma = 0\<close> the source divides zero by zero and every weight is NaN; the model
  is for the other values of \<open>sigma\<close>.
\<close>

definition createGaussianKernel :: "real \<Rightarrow> real list list" where
  "createGaussianKernel sigma =
     (let ksize = nat (\<lceil>sigma * 3\<rceil> * 2 + 1);
          center = ksize div 2;
          val = (\<lambda>y x. let dx = int x - int center; dy = int y - int center
                        in exp (- (of_int (dx * dx + dy * dy)) / (2 * sigma * sigma)));
          total = sum_list (concat (map (\<lambda>y. map (\<lambda>x. val y x) [0..<ksize]) [0..<ksize]))
      in map (\<lambda>y. map (\<lambda>x. val y x / total) [0..<ksize]) [0..<ksize])"

text \<open>The weighted sums of one pixel's neighbourhood: \<open>(r, g, b, totalWeight)\<close>.\<close>

definition blur_sums ::
  "byte list \<Rightarrow> nat \<Rightarrow> nat \<Rightarrow> real list list \<Rightarrow> nat \<Rightarrow> nat
     \<Rightarrow> real \<times> real \<times> real \<times> real" where
  "blur_sums data width height kernel2d x y =
     (let kernelSize = length kernel2d; halfKernel = kernelSize div 2
      in fold (\<lambda>(ky, kx) (r, g, b, totalWeight).
                 let px = nat (min (int width - 1) (max 0 (int x + int kx - int halfKernel)));
                     py = nat (min (int height - 1) (max 0 (int y + int ky - int halfKernel)));
                     pidx = (py * width + px) * 4;
                     weight = kernel2d ! ky ! kx
                 in (r + byte_value (data ! pidx) * weight,
                     g + byte_value (data ! (pidx + 1)) * weight,
                     b + byte_value (data ! (pidx + 2)) * weight,
                     totalWeight + weight))
              (concat (map (\<lambda>ky. map (\<lambda>kx. (ky, kx)) [0..<kernelSize]) [0..<kernelSize]))
              (0, 0, 0, 0))"

definition applySelectiveBlur ::
  "byte list \<Rightarrow> nat \<Rightarrow> nat \<Rightarrow> real list \<Rightarrow> real \<Rightarrow> byte list" where
  "applySelectiveBlur data width height edgeMap blurRadius =
     (let kernel2d = createGaussianKernel blurRadius
      in fold (\<lambda>y output.
           fold (\<lambda>x output.
              let i = (y * width + x) * 4
              in if edgeMap ! (y * width + x) > 22 / 100 then output
                 else (let (r, g, b, totalWeight) = blur_sums data width height kernel2d x y
                       in output[i := toUint8Clamp (r / totalWeight),
                                 i + 1 := toUint8Clamp (g / totalWeight),
                                 i + 2 := toUint8Clamp (b / totalWeight)]))
             [0..<width] output)
          [0..<height] data)"

subsection \<open>applyAdaptiveSharpening\<close>

definition sharpen_pixel ::
  "byte list \<Rightarrow> nat \<Rightarrow> real \<Rightarrow> nat \<Rightarrow> byte list \<Rightarrow> byte list" where
  "sharpen_pixel data width localStrength i output =
     fold (\<lambda>c output.
             let current = byte_value (data ! (i + c));
                 neighbors = (byte_value (data ! (i - 4 + c)) + byte_value (data ! (i + 4 + c))
                                + byte_value (data ! (i - width * 4 + c))
                                + byte_value (data ! (i + width * 4 + c))) / 4
             in output[i + c := toUint8Clamp
                  (min 255 (max 0 (current + (current - neighbors) * localStrength)))])
          [0..<3] output"

definition applyAdaptiveSharpening ::
  "byte list \<Rightarrow> nat \<Rightarrow> nat \<Rightarrow> real list \<Rightarrow> real \<Rightarrow> byte list" where
  "applyAdaptiveSharpening data width height edgeMap strength =
     fold (\<lambda>y output.
        fold (\<lambda>x output.
           let i = (y * width + x) * 4;
               edgeStrength = edgeMap ! (y * width + x)
           in if edgeStrength < 12 / 100 then output
              else sharpen_pixel data width (strength * edgeStrength) i output)
          [1..<width - 1] output)
       [1..<height - 1] data"

subsection \<open>applyColorQuantization\<close>

definition quantize :: "rat \<Rightarrow> byte \<Rightarrow> byte" where
  "quantize step v = toUint8Clamp (of_int (math_round (byte_value v / step)) * step)"

text \<open>
  The loop \<^verbatim>\<open>for (i = 0; i < data.length; i += 4)\<close>; a write past the end of a
  typed array is ignored.
\<close>

fun quantize_pixels :: "rat \<Rightarrow> byte list \<Rightarrow> byte list" where
  "quantize_pixels step (r # g # b # a # rest) =
     quantize step r # quantize step g # quantize step b # a # quantize_pixels step rest"
| "quantize_pixels step [r, g, b] = [quantize step r, quantize step g, quantize step b]"
| "quantize_pixels step [r, g] = [quantize step r, quantize step g]"
| "quantize_pixels step [r] = [quantize step r]"
| "quantize_pixels step [] = []"

definition applyColorQuantization :: "byte list \<Rightarrow> nat \<Rightarrow> nat \<Rightarrow> rat \<Rightarrow> byte list" where
  "applyColorQuantization data width height levels =
     (let step = 256 / levels in quantize_pixels step data)"

subsection \<open>The preprocessing of createOptimizedCanvas\<close>

definition preprocess :: "byte list \<Rightarrow> nat \<Rightarrow> nat \<Rightarrow> analysis \<Rightarrow> rat \<Rightarrow> byte list" where
  "preprocess data width height a scale =
     (let edgeMap = detectEdges data width height;
          d1 = applyChromaSubsampling data width height (78 / 100);
          d2 = applySelectiveBlur d1 width height edgeMap (14 / 10);
          d3 = applyColorQuantization d2 width height 218
      in if imageType a = ''photo'' \<and> scale < 88 / 100
         then applyAdaptiveSharpening d3 width height edgeMap (75 / 100)
         else d3)"

text \<open>The alpha bytes of a buffer: every fourth sample.\<close>

definition alpha_channel :: "byte list \<Rightarrow> byte list" where
  "alpha_channel data = map (\<lambda>k. data ! (4 * k + 3)) [0..<length data div 4]"

text \<open>
  Helpers for the proofs: the value a store into the clamped array leaves, as an
  integer; quantization on integers; and the relation of two buffers of equal length
  that agree on every alpha byte.
\<close>

definition clamp_int :: "'a::floor_ceiling \<Rightarrow> int" where
  "clamp_int x =
     (let c = min (max x 0) 255; f = \<lfloor>c\<rfloor>
      in (if of_int f + 1 / 2 < c then f + 1
          else if c < of_int f + 1 / 2 then f
          else if even f then f else f + 1))"

definition quantize_int :: "rat \<Rightarrow> int \<Rightarrow> int" where
  "quantize_int step v = clamp_int (of_int \<lfloor>of_int v / step + 1 / 2\<rfloor> * step)"

definition same_alpha :: "byte list \<Rightarrow> byte list \<Rightarrow> bool" where
  "same_alpha xs ys \<longleftrightarrow> length xs = length ys \<and> (\<forall>k. xs ! (4 * k + 3) = ys ! (4 * k + 3))"


section \<open>Analyzer theorems\<close>

text \<open>
  C3. The classification is first-match-wins with strict comparisons: fewer than 256
  unique colours gives "graphic"; otherwise complexity below 5 gives "simple"; otherwise
  complexity above 20 gives "complex"; otherwise "photo". A probe with exactly 256
  unique colours is not "graphic", one with complexity exactly 5 is not "simple", and one
  with complexity exactly 20 is not "complex".
\<close>

theorem classify_first_match:
  "(classify u c = ''graphic'' \<longleftrightarrow> u < 256)
   \<and> (classify u c = ''simple'' \<longleftrightarrow> 256 \<le> u \<and> c < 5)
   \<and> (classify u c = ''complex'' \<longleftrightarrow> 256 \<le> u \<and> 5 \<le> c \<and> 20 < c)
   \<and> (classify u c = ''photo'' \<longleftrightarrow> 256 \<le> u \<and> 5 \<le> c \<and> c \<le> 20)
   \<and> classify 256 c \<noteq> ''graphic''
   \<and> classify u 5 \<noteq> ''simple''
   \<and> classify u 20 \<noteq> ''complex''"
  by (auto simp: classify_def)

text \<open>
  C4, as stated: the value returned for a graphic or simple image is at most the value
  returned for every other input. It fails: a graphic image gets 0.65, a photo of
  complexity 25 gets 0.48.
\<close>

theorem recommended_quality_graphic_not_lowest:
  "\<not> calculateRecommendedQuality 0 ''graphic'' False
       \<le> calculateRecommendedQuality 25 ''photo'' False"
  by (simp add: calculateRecommendedQuality_def)

text \<open>
  C4, amended. Graphic and simple images get 0.65. Among the other inputs, those with
  transparency and complexity below 10 get 0.70, which is not below the graphic tier;
  all the remaining ones get strictly less than the graphic tier: 0.48 when the
  complexity exceeds 20, and the default 0.58 otherwise. The v3.0.0 copy has the same
  order of tiers with the constants 0.85, 0.88, 0.75 and 0.80.
\<close>

theorem recommended_quality_tiers:
  assumes "t = ''graphic'' \<or> t = ''simple''"
      and "t2 \<noteq> ''graphic''" and "t2 \<noteq> ''simple''"
  shows "calculateRecommendedQuality c t h = 65 / 100
     \<and> calculateRecommendedQuality c2 t2 h2 =
         (if h2 \<and> c2 < 10 then 7 / 10 else if c2 > 20 then 48 / 100 else 58 / 100)
     \<and> (if h2 \<and> c2 < 10
        then calculateRecommendedQuality c t h \<le> calculateRecommendedQuality c2 t2 h2
        else calculateRecommendedQuality c2 t2 h2 < calculateRecommendedQuality c t h)
     \<and> calculateRecommendedQuality_v3 c t h = 85 / 100
     \<and> calculateRecommendedQuality_v3 c2 t2 h2 =
         (if h2 \<and> c2 < 10 then 88 / 100 else if c2 > 20 then 75 / 100 else 8 / 10)
     \<and> (if h2 \<and> c2 < 10
        then calculateRecommendedQuality_v3 c t h \<le> calculateRecommendedQuality_v3 c2 t2 h2
        else calculateRecommendedQuality_v3 c2 t2 h2 < calculateRecommendedQuality_v3 c t h)"
  using assms
  by (simp add: calculateRecommendedQuality_def calculateRecommendedQuality_v3_def)

theorem recommended_quality_tiers_witness:
  "calculateRecommendedQuality 3 ''simple'' True = 65 / 100
   \<and> calculateRecommendedQuality 25 ''complex'' True = 48 / 100
   \<and> calculateRecommendedQuality 25 ''complex'' True
       < calculateRecommendedQuality 3 ''simple'' True
   \<and> calculateRecommendedQuality_v3 25 ''complex'' True
       < calculateRecommendedQuality_v3 3 ''simple'' True"
  using recommended_quality_tiers
    [where t = "''simple''" and ?t2.0 = "''complex''" and c = 3 and h = True
       and ?c2.0 = 25 and ?h2.0 = True]
  by simp

text \<open>
  C10. The v4.0.0 and v3.0.0 copies compute the same compressibility score and the
  same image type for every pair of unique-colour count and complexity.
\<close>

theorem analyzer_versions_agree:
  "calculateCompressibility u c = calculateCompressibility_v3 u c
   \<and> classify u c = classify_v3 u c"
  by (simp add: calculateCompressibility_def calculateCompressibility_v3_def
                classify_def classify_v3_def)

section \<open>CompressionEngine theorems\<close>

declare search_loop.simps [simp del]

lemma canvasToBlob_log:
  "canvasToBlob env c f q w = (r, w') \<Longrightarrow> w' = w @ [(c, f, q)]"
  by (auto simp: canvasToBlob_def split: if_splits option.splits)


lemma search_loop_stop:
  "\<not> probing qa s \<Longrightarrow> search_loop env c f t qa s w = (Inr s, w)"
  unfolding probing_def by (subst search_loop.simps) (rule if_not_P)

lemma search_loop_error:
  assumes "probing qa s" and "canvasToBlob env c f (midpoint s) w = (Inl e, w1)"
  shows "search_loop env c f t qa s w = (Inl e, w1)"
proof -
  have "search_loop env c f t qa s w =
        (case canvasToBlob env c f (midpoint s) w of
           (Inl e, w') \<Rightarrow> (Inl e, w')
         | (Inr blob', w') \<Rightarrow> search_loop env c f t qa (advance t qa s blob') w')"
    using assms(1) unfolding probing_def midpoint_def advance_def
    by (subst search_loop.simps) (simp only: if_P Let_def)
  with assms(2) show ?thesis by simp
qed

lemma search_loop_probe:
  assumes "probing qa s" and "canvasToBlob env c f (midpoint s) w = (Inr blob', w1)"
  shows "search_loop env c f t qa s w = search_loop env c f t qa (advance t qa s blob') w1"
proof -
  have "search_loop env c f t qa s w =
        (case canvasToBlob env c f (midpoint s) w of
           (Inl e, w') \<Rightarrow> (Inl e, w')
         | (Inr blob', w') \<Rightarrow> search_loop env c f t qa (advance t qa s blob') w')"
    using assms(1) unfolding probing_def midpoint_def advance_def
    by (subst search_loop.simps) (simp only: if_P Let_def)
  with assms(2) show ?thesis by simp
qed

lemma search_loop_induct [consumes 0, case_names stop error probe]:
  assumes stop: "\<And>s w. \<not> probing qa s \<Longrightarrow> P s w"
      and err: "\<And>s w e w1. probing qa s \<Longrightarrow>
                 canvasToBlob env c f (midpoint s) w = (Inl e, w1) \<Longrightarrow> P s w"
      and probe: "\<And>s w blob' w1. probing qa s \<Longrightarrow>
                 canvasToBlob env c f (midpoint s) w = (Inr blob', w1) \<Longrightarrow>
                 P (advance t qa s blob') w1 \<Longrightarrow> P s w"
  shows "P s w"
proof (induction "iterations qa - iterations_run s" arbitrary: s w rule: less_induct)
  case (less s w)
  show ?case
  proof (cases "probing qa s")
    case False
    then show ?thesis by (rule stop)
  next
    case True
    obtain x w1 where cb: "canvasToBlob env c f (midpoint s) w = (x, w1)"
      by (cases "canvasToBlob env c f (midpoint s) w")
    show ?thesis
    proof (cases x)
      case (Inl e)
      with cb True show ?thesis by (auto intro: err)
    next
      case (Inr blob')
      have "iterations qa - iterations_run (advance t qa s blob') < iterations qa - iterations_run s"
        using True by (auto simp: advance_def probing_def)
      then have "P (advance t qa s blob') w1" by (rule less)
      with cb True Inr show ?thesis by (auto intro: probe)
    qed
  qed
qed

lemma advance_width:
  "maxQuality (advance t qa s blob') - minQuality (advance t qa s blob')
     = (maxQuality s - minQuality s) / 2"
  by (simp add: advance_def midpoint_def field_simps)

lemma search_loop_calls:
  "search_loop env c f t qa s w = (r, w') \<Longrightarrow>
   maxQuality s - minQuality s \<le> (2 / 1000) * 2 ^ n \<Longrightarrow>
   \<exists>ws. w' = w @ ws \<and> length ws \<le> n"
proof (induction s w arbitrary: n rule: search_loop_induct [where qa = qa and env = env and c = c and f = f and t = t])
  case (stop s w)
  then show ?case by (simp add: search_loop_stop)
next
  case (error s w e w1)
  from error(1,4) have "n \<noteq> 0" by (cases n) (auto simp: probing_def)
  moreover from error have "w' = w1" by (simp add: search_loop_error)
  moreover have "w1 = w @ [(c, f, midpoint s)]" using error(2) by (rule canvasToBlob_log)
  ultimately show ?case by (cases n) auto
next
  case (probe s w blob' w1)
  from probe(1,5) obtain m where n: "n = Suc m" by (cases n) (auto simp: probing_def)
  have w1: "w1 = w @ [(c, f, midpoint s)]" using probe(2) by (rule canvasToBlob_log)
  have rec: "search_loop env c f t qa (advance t qa s blob') w1 = (r, w')"
    using probe(1,2,4) by (simp add: search_loop_probe)
  have "maxQuality (advance t qa s blob') - minQuality (advance t qa s blob') \<le> (2 / 1000) * 2 ^ m"
    using probe(5) n by (simp add: advance_width)
  from probe(3)[OF rec this] obtain ws where "w' = w1 @ ws" "length ws \<le> m" by blast
  with w1 n show ?case by simp
qed


lemma profile_bounds:
  "range_q (getQualityAdjustment m) + boost (getQualityAdjustment m) \<le> 512 / 1000
   \<and> 9 \<le> iterations (getQualityAdjustment m)"
  by (simp add: getQualityAdjustment_def)

lemma compress_calls_aux:
  "\<exists>ws. snd (compress env c f t a m w) = w @ ws \<and> length ws \<le> 9"
proof -
  define qa where "qa = getQualityAdjustment (case m of None \<Rightarrow> AGGRESSIVE | Some x \<Rightarrow> x)"
  define s0 where "s0 = \<lparr>minQuality = max (2 / 100) (recommendedQuality a - range_q qa),
                maxQuality = min (8 / 10) (recommendedQuality a + boost qa),
                bestBlob = None, iterations_run = 0\<rparr>"
  obtain r w1 where sl: "search_loop env c f t qa s0 w = (r, w1)"
    by (cases "search_loop env c f t qa s0 w")
  have "range_q qa + boost qa \<le> 512 / 1000"
    unfolding qa_def using profile_bounds by blast
  moreover have "maxQuality s0 \<le> recommendedQuality a + boost qa"
      and "recommendedQuality a - range_q qa \<le> minQuality s0"
    by (simp_all add: s0_def)
  moreover have "(2 / 1000) * 2 ^ 8 = (512 / 1000 :: rat)" by simp
  ultimately have "maxQuality s0 - minQuality s0 \<le> (2 / 1000) * 2 ^ 8"
    by linarith
  from search_loop_calls[OF sl this] obtain ws where ws: "w1 = w @ ws" "length ws \<le> 8"
    by blast
  have c: "compress env c f t a m w =
        (case r of Inl e \<Rightarrow> (Inl e, w1)
         | Inr s \<Rightarrow> (case bestBlob s of
                None \<Rightarrow> canvasToBlob env c f (minQuality s) w1
              | Some blob' \<Rightarrow> (Inr blob', w1)))"
  proof -
    have "compress env c f t a m w =
          (case search_loop env c f t qa s0 w of
             (Inl e, w') \<Rightarrow> (Inl e, w')
           | (Inr s, w') \<Rightarrow>
               (case bestBlob s of
                  None \<Rightarrow> canvasToBlob env c f (minQuality s) w'
                | Some blob' \<Rightarrow> (Inr blob', w')))"
      by (simp only: compress_def Let_def qa_def s0_def)
    then show ?thesis by (simp add: sl split: sum.splits)
  qed
  show ?thesis
  proof (cases r)
    case (Inl e)
    with c ws show ?thesis by simp
  next
    case (Inr s)
    show ?thesis
    proof (cases "bestBlob s")
      case (Some blob')
      with c Inr ws show ?thesis by simp
    next
      case None
      obtain r2 w2 where cb: "canvasToBlob env c f (minQuality s) w1 = (r2, w2)"
        by (cases "canvasToBlob env c f (minQuality s) w1")
      then have "w2 = w1 @ [(c, f, minQuality s)]" by (rule canvasToBlob_log)
      with c Inr None cb ws show ?thesis by simp
    qed
  qed
qed






lemma canvasToBlob_append:
  "canvasToBlob env c f q w = (fst (canvasToBlob env c f q []), w @ [(c, f, q)])"
  by (simp add: canvasToBlob_def split: option.splits)

lemma search_loop_log_aux:
  fixes env :: "'c browser" and w0 :: "'c calls"
  shows "\<forall>w. search_loop env c f t qa s w =
     (fst (search_loop env c f t qa s []), w @ snd (search_loop env c f t qa s []))"
proof (induction s w0 rule: search_loop_induct [where qa = qa and env = env and c = c and f = f and t = t])
  case (stop s w0)
  then show ?case by (simp add: search_loop_stop)
next
  case (error s w0 e w1)
  have e: "\<And>w. canvasToBlob env c f (midpoint s) w = (Inl e, w @ [(c, f, midpoint s)])"
    using error(2) by (auto simp: canvasToBlob_def split: if_splits option.splits)
  show ?case using error(1) by (simp add: search_loop_error[OF _ e])
next
  case (probe s w0 blob' w1)
  have e: "\<And>w. canvasToBlob env c f (midpoint s) w = (Inr blob', w @ [(c, f, midpoint s)])"
    using probe(2) by (auto simp: canvasToBlob_def split: if_splits option.splits)
  have step: "\<And>w. search_loop env c f t qa s w =
      search_loop env c f t qa (advance t qa s blob') (w @ [(c, f, midpoint s)])"
    using probe(1) e by (rule search_loop_probe)
  show ?case
  proof
    fix w
    from probe(3) have ih: "\<And>w. search_loop env c f t qa (advance t qa s blob') w =
      (fst (search_loop env c f t qa (advance t qa s blob') []),
       w @ snd (search_loop env c f t qa (advance t qa s blob') []))"
      by blast
    show "search_loop env c f t qa s w =
     (fst (search_loop env c f t qa s []), w @ snd (search_loop env c f t qa s []))"
      by (simp add: step[of w] step[of "[]"] ih[of "w @ [(c, f, midpoint s)]"]
                    ih[of "[(c, f, midpoint s)]"])
  qed
qed

lemma compress_log:
  "compress env c f t a m w =
     (fst (compress env c f t a m []), w @ snd (compress env c f t a m []))"
proof -
  define qa where "qa = getQualityAdjustment (case m of None \<Rightarrow> AGGRESSIVE | Some x \<Rightarrow> x)"
  define s0 where "s0 = \<lparr>minQuality = max (2 / 100) (recommendedQuality a - range_q qa),
                maxQuality = min (8 / 10) (recommendedQuality a + boost qa),
                bestBlob = None, iterations_run = 0\<rparr>"
  have unf: "\<And>w. compress env c f t a m w =
          (case search_loop env c f t qa s0 w of
             (Inl e, w') \<Rightarrow> (Inl e, w')
           | (Inr s, w') \<Rightarrow>
               (case bestBlob s of
                  None \<Rightarrow> canvasToBlob env c f (minQuality s) w'
                | Some blob' \<Rightarrow> (Inr blob', w')))"
    by (simp only: compress_def Let_def qa_def s0_def)
  obtain r ws where sl: "search_loop env c f t qa s0 [] = (r, ws)"
    by (cases "search_loop env c f t qa s0 []")
  have slw: "search_loop env c f t qa s0 w = (r, w @ ws)"
    using search_loop_log_aux[of env c f t qa s0] sl by simp
  show ?thesis
    unfolding unf[of w] unf[of "[]"] sl slw
    by (cases r; simp split: option.splits)
       (simp add: canvasToBlob_append[of _ _ _ _ "w @ ws"] canvasToBlob_append[of _ _ _ _ "ws"])
qed


lemma optimize_loop_fail:
  assumes "fst (compress env (drawScaled env c s) f t a (Some EXTREME) []) = Inr b"
      and "t < of_nat (length b)"
  shows "optimize_loop env c f t a (s # ss) w =
         optimize_loop env c f t a ss
           (w @ snd (compress env (drawScaled env c s) f t a (Some EXTREME) []))"
  using assms by (simp add: Let_def compress_log[of env "drawScaled env c s" f t a "Some EXTREME" w])

lemma optimize_loop_fit:
  assumes "fst (compress env (drawScaled env c s) f t a (Some EXTREME) []) = Inr b"
      and "of_nat (length b) \<le> t"
  shows "optimize_loop env c f t a (s # ss) w =
         (Inr b, w @ snd (compress env (drawScaled env c s) f t a (Some EXTREME) []))"
  using assms by (simp add: Let_def compress_log[of env "drawScaled env c s" f t a "Some EXTREME" w])

lemma optimize_loop_error:
  assumes "fst (compress env (drawScaled env c s) f t a (Some EXTREME) []) = Inl e"
  shows "optimize_loop env c f t a (s # ss) w =
         (Inl e, w @ snd (compress env (drawScaled env c s) f t a (Some EXTREME) []))"
  using assms by (simp add: Let_def compress_log[of env "drawScaled env c s" f t a "Some EXTREME" w])

lemma optimize_loop_first:
  assumes "i < length ss"
      and "\<forall>j<i. \<exists>b. fst (compress env (drawScaled env c (ss ! j)) f t a (Some EXTREME) []) = Inr b
                  \<and> t < of_nat (length b)"
      and "fst (compress env (drawScaled env c (ss ! i)) f t a (Some EXTREME) []) = r"
      and "\<forall>b. r = Inr b \<longrightarrow> of_nat (length b) \<le> t"
  shows "optimize_loop env c f t a ss w =
         (r, w @ concat (map (\<lambda>s. snd (compress env (drawScaled env c s) f t a (Some EXTREME) []))
                          (take (Suc i) ss)))"
  using assms
proof (induction ss arbitrary: i w)
  case Nil
  then show ?case by simp
next
  case (Cons s ss)
  show ?case
  proof (cases i)
    case 0
    with Cons.prems show ?thesis
      by (cases r) (simp_all add: optimize_loop_error optimize_loop_fit del: optimize_loop.simps)
  next
    case (Suc k)
    from Cons.prems(2) Suc obtain b where
      b: "fst (compress env (drawScaled env c s) f t a (Some EXTREME) []) = Inr b"
         "t < of_nat (length b)"
      by fastforce
    have "\<forall>j<k. \<exists>b. fst (compress env (drawScaled env c (ss ! j)) f t a (Some EXTREME) []) = Inr b
                  \<and> t < of_nat (length b)"
      using Cons.prems(2) Suc by fastforce
    moreover have "k < length ss" using Cons.prems(1) Suc by simp
    moreover have "fst (compress env (drawScaled env c (ss ! k)) f t a (Some EXTREME) []) = r"
      using Cons.prems(3) Suc by simp
    ultimately have "optimize_loop env c f t a ss
           (w @ snd (compress env (drawScaled env c s) f t a (Some EXTREME) [])) =
         (r, (w @ snd (compress env (drawScaled env c s) f t a (Some EXTREME) [])) @
             concat (map (\<lambda>s. snd (compress env (drawScaled env c s) f t a (Some EXTREME) []))
                          (take (Suc k) ss)))"
      using Cons.prems(4) by (intro Cons.IH)
    then show ?thesis
      using Suc by (simp add: optimize_loop_fail[OF b] del: optimize_loop.simps)
  qed
qed

lemma optimize_loop_last:
  assumes "\<forall>s\<in>set ss. \<exists>b. fst (compress env (drawScaled env c s) f t a (Some EXTREME) []) = Inr b
                  \<and> t < of_nat (length b)"
  shows "optimize_loop env c f t a ss w =
         (fst (canvasToBlob env (drawScaled env c (32 / 100)) f (2 / 100) []),
          w @ concat (map (\<lambda>s. snd (compress env (drawScaled env c s) f t a (Some EXTREME) [])) ss)
            @ [(drawScaled env c (32 / 100), f, 2 / 100)])"
  using assms
proof (induction ss arbitrary: w)
  case Nil
  have "optimize_loop env c f t a [] w =
        canvasToBlob env (drawScaled env c (32 / 100)) f (2 / 100) w"
    by (simp only: optimize_loop.simps Let_def)
  also have "\<dots> = (fst (canvasToBlob env (drawScaled env c (32 / 100)) f (2 / 100) []),
                     w @ [(drawScaled env c (32 / 100), f, 2 / 100)])"
    by (rule canvasToBlob_append)
  finally show ?case by simp
next
  case (Cons s ss)
  then obtain b where
      b: "fst (compress env (drawScaled env c s) f t a (Some EXTREME) []) = Inr b"
         "t < of_nat (length b)"
    by auto
  from Cons show ?case
    by (simp add: optimize_loop_fail[OF b] del: optimize_loop.simps)
qed

lemma optimize_loop_calls:
  "\<exists>ws. snd (optimize_loop env c f t a ss w) = w @ ws \<and> length ws \<le> length ss * 9 + 1"
proof (induction ss arbitrary: w)
  case Nil
  have "optimize_loop env c f t a [] w =
        canvasToBlob env (drawScaled env c (32 / 100)) f (2 / 100) w"
    by (simp only: optimize_loop.simps Let_def)
  also have "\<dots> = (fst (canvasToBlob env (drawScaled env c (32 / 100)) f (2 / 100) []),
                     w @ [(drawScaled env c (32 / 100), f, 2 / 100)])"
    by (rule canvasToBlob_append)
  finally show ?case by simp
next
  case (Cons s ss)
  let ?att = "compress env (drawScaled env c s) f t a (Some EXTREME) []"
  obtain us where us: "snd ?att = [] @ us" "length us \<le> 9"
    using compress_calls_aux[of env "drawScaled env c s" f t a "Some EXTREME" "[]"] by blast
  show ?case
  proof (cases "fst ?att")
    case (Inl e)
    then show ?thesis using us
      by (simp add: optimize_loop_error del: optimize_loop.simps)
  next
    case (Inr b)
    show ?thesis
    proof (cases "of_nat (length b) \<le> t")
      case True
      with Inr us show ?thesis by (simp add: optimize_loop_fit del: optimize_loop.simps)
    next
      case False
      then have lt: "t < of_nat (length b)" by simp
      from Cons[of "w @ snd ?att"] obtain ws where
        "snd (optimize_loop env c f t a ss (w @ snd ?att)) = (w @ snd ?att) @ ws"
        "length ws \<le> length ss * 9 + 1" by blast
      with us show ?thesis
        by (simp add: optimize_loop_fail[OF Inr lt] del: optimize_loop.simps)
    qed
  qed
qed


lemma floor_numeral_div:
  "\<lfloor>numeral a / numeral b :: 'a::floor_ceiling\<rfloor> = numeral a div numeral b"
  using floor_divide_of_int_eq [of "numeral a" "numeral b", where ?'a = 'a] by simp

text \<open>
  C5. \<open>advancedOptimize\<close> walks the sixteen ratios in order. At the first ratio whose
  recompressed blob is at most the target size it returns that blob, and the encoder
  calls are those of the recompressions up to that ratio. When every ratio gives a blob
  above the target, it makes exactly one more encoder call, at scale 0.32 and quality
  0.02, and returns its result whatever its size. A failing recompression ends the walk
  with its error. In every case the function returns after at most sixteen
  recompressions and the last-resort encode.
\<close>

theorem advancedOptimize_first_fit:
  fixes env :: "'c browser" and canvas :: 'c and format :: string and target :: rat
    and a :: analysis
  defines "attempt \<equiv>
    (\<lambda>scale. compress env (drawScaled env canvas scale) format target a (Some EXTREME) [])"
  shows
    "(i < length scales
        \<and> (\<forall>j<i. \<exists>b. fst (attempt (scales ! j)) = Inr b \<and> target < of_nat (length b))
        \<and> fst (attempt (scales ! i)) = Inr blob' \<and> of_nat (length blob') \<le> target
      \<longrightarrow> advancedOptimize env canvas format target a w =
            (Inr blob', w @ concat (map (\<lambda>s. snd (attempt s)) (take (Suc i) scales))))
     \<and> ((\<forall>s\<in>set scales. \<exists>b. fst (attempt s) = Inr b \<and> target < of_nat (length b))
      \<longrightarrow> advancedOptimize env canvas format target a w =
            (fst (canvasToBlob env (drawScaled env canvas (32 / 100)) format (2 / 100) []),
             w @ concat (map (\<lambda>s. snd (attempt s)) scales)
               @ [(drawScaled env canvas (32 / 100), format, 2 / 100)]))
     \<and> (i < length scales
        \<and> (\<forall>j<i. \<exists>b. fst (attempt (scales ! j)) = Inr b \<and> target < of_nat (length b))
        \<and> fst (attempt (scales ! i)) = Inl e
      \<longrightarrow> advancedOptimize env canvas format target a w =
            (Inl e, w @ concat (map (\<lambda>s. snd (attempt s)) (take (Suc i) scales))))
     \<and> (\<exists>ws. snd (advancedOptimize env canvas format target a w) = w @ ws
            \<and> length ws \<le> length scales * iterations (getQualityAdjustment EXTREME) + 1)
     \<and> length scales = 16"
proof (intro conjI impI)
  assume "i < length scales
        \<and> (\<forall>j<i. \<exists>b. fst (attempt (scales ! j)) = Inr b \<and> target < of_nat (length b))
        \<and> fst (attempt (scales ! i)) = Inr blob' \<and> of_nat (length blob') \<le> target"
  then show "advancedOptimize env canvas format target a w =
            (Inr blob', w @ concat (map (\<lambda>s. snd (attempt s)) (take (Suc i) scales)))"
    unfolding advancedOptimize_def attempt_def
    by (intro optimize_loop_first) auto
next
  assume "\<forall>s\<in>set scales. \<exists>b. fst (attempt s) = Inr b \<and> target < of_nat (length b)"
  then show "advancedOptimize env canvas format target a w =
            (fst (canvasToBlob env (drawScaled env canvas (32 / 100)) format (2 / 100) []),
             w @ concat (map (\<lambda>s. snd (attempt s)) scales)
               @ [(drawScaled env canvas (32 / 100), format, 2 / 100)])"
    unfolding advancedOptimize_def attempt_def
    by (rule optimize_loop_last)
next
  assume "i < length scales
        \<and> (\<forall>j<i. \<exists>b. fst (attempt (scales ! j)) = Inr b \<and> target < of_nat (length b))
        \<and> fst (attempt (scales ! i)) = Inl e"
  then show "advancedOptimize env canvas format target a w =
            (Inl e, w @ concat (map (\<lambda>s. snd (attempt s)) (take (Suc i) scales)))"
    unfolding advancedOptimize_def attempt_def
    by (intro optimize_loop_first) auto
next
  have "9 \<le> iterations (getQualityAdjustment EXTREME)"
    using profile_bounds by blast
  then have le: "length scales * 9 + 1 \<le> length scales * iterations (getQualityAdjustment EXTREME) + 1"
    by simp
  obtain ws where ws: "snd (optimize_loop env canvas format target a scales w) = w @ ws"
     and "length ws \<le> length scales * 9 + 1"
    using optimize_loop_calls[of env canvas format target a scales w] by blast
  with le have "length ws \<le> length scales * iterations (getQualityAdjustment EXTREME) + 1"
    by (rule_tac order_trans)
  with ws show "\<exists>ws. snd (advancedOptimize env canvas format target a w) = w @ ws
            \<and> length ws \<le> length scales * iterations (getQualityAdjustment EXTREME) + 1"
    unfolding advancedOptimize_def by blast
next
  show "length scales = 16" by (simp add: scales_def)
qed

theorem advancedOptimize_first_fit_witness:
  "advancedOptimize example_browser 1 ''image/jpeg'' 17 example_analysis []
     = (Inr (replicate 17 0),
        [(94 / 100, ''image/jpeg'', 2 / 100), (9 / 10, ''image/jpeg'', 2 / 100),
         (86 / 100, ''image/jpeg'', 2 / 100)])
   \<and> fst (advancedOptimize example_browser 1 ''image/jpeg'' 5 example_analysis [])
       = Inr (replicate 6 0)
   \<and> length (snd (advancedOptimize example_browser 1 ''image/jpeg'' 5 example_analysis []))
       = 17
   \<and> last (snd (advancedOptimize example_browser 1 ''image/jpeg'' 5 example_analysis []))
       = (32 / 100, ''image/jpeg'', 2 / 100)"
proof -
  have att: "compress example_browser c ''image/jpeg'' t example_analysis (Some EXTREME) []
      = (Inr (replicate (nat \<lfloor>20 * c\<rfloor>) 0), [(c, ''image/jpeg'', 2 / 100)])" for c t
    by (simp add: compress_def Let_def getQualityAdjustment_def EXTREME_def MAXIMUM_def
          HIGH_def BALANCED_def example_analysis_def search_loop_stop probing_def
          canvasToBlob_def example_browser_def)
  have ds: "drawScaled example_browser c s = c * s" for c s
    by (simp add: example_browser_def)
  have fin: "canvasToBlob example_browser c ''image/jpeg'' q []
      = (Inr (replicate (nat \<lfloor>c * q * 1000\<rfloor>) 0), [(c, ''image/jpeg'', q)])" for c q
    by (simp add: canvasToBlob_def example_browser_def)
  have h1: "2 < length scales
        \<and> (\<forall>j<2. \<exists>b. fst (compress example_browser (drawScaled example_browser 1 (scales ! j))
                            ''image/jpeg'' 17 example_analysis (Some EXTREME) []) = Inr b
                   \<and> (17 :: rat) < of_nat (length b))
        \<and> fst (compress example_browser (drawScaled example_browser 1 (scales ! 2))
                  ''image/jpeg'' 17 example_analysis (Some EXTREME) []) = Inr (replicate 17 0)
        \<and> of_nat (length (replicate 17 (0 :: 8 word))) \<le> (17 :: rat)"
    by (simp add: att ds scales_def less_Suc_eq numeral_2_eq_2 floor_numeral_div)
  have h2: "\<forall>s\<in>set scales.
       \<exists>b. fst (compress example_browser (drawScaled example_browser 1 s)
                  ''image/jpeg'' 5 example_analysis (Some EXTREME) []) = Inr b
          \<and> (5 :: rat) < of_nat (length b)"
    by (simp add: att ds scales_def floor_numeral_div)
  note t1 = advancedOptimize_first_fit [THEN conjunct1, THEN mp, OF h1, of "[]"]
  note t2 = advancedOptimize_first_fit [THEN conjunct2, THEN conjunct1, THEN mp, OF h2, of "[]"]
  have c1: "advancedOptimize example_browser 1 ''image/jpeg'' 17 example_analysis []
     = (Inr (replicate 17 0),
        [(94 / 100, ''image/jpeg'', 2 / 100), (9 / 10, ''image/jpeg'', 2 / 100),
         (86 / 100, ''image/jpeg'', 2 / 100)])"
    using t1 by (simp add: att ds scales_def floor_numeral_div)
  have c2: "advancedOptimize example_browser 1 ''image/jpeg'' 5 example_analysis []
     = (Inr (replicate 6 0),
        map (\<lambda>s. (s, ''image/jpeg'', 2 / 100)) scales @ [(32 / 100, ''image/jpeg'', 2 / 100)])"
    using t2 by (simp add: att ds fin scales_def floor_numeral_div)
  show ?thesis
    unfolding c1 c2 by (simp add: scales_def)
qed

section \<open>_processVersions theorems\<close>

lemma canvasToBlob_from_empty:
  "canvasToBlob env c f q [] = (r, ws) \<Longrightarrow> canvasToBlob env c f q w = (r, w @ ws)"
  by (auto simp: canvasToBlob_def split: if_splits option.splits)

lemma compress_from_empty:
  assumes "compress env c f t a m [] = (r, ws)"
  shows "compress env c f t a m w = (r, w @ ws)"
  using compress_log[of env c f t a m w] assms by simp

lemma optimize_loop_from_empty:
  "optimize_loop env c f t a ss [] = (r, ws) \<Longrightarrow> optimize_loop env c f t a ss w = (r, w @ ws)"
proof (induction ss arbitrary: w r ws)
  case Nil
  have unf: "\<And>w. optimize_loop env c f t a [] w =
        canvasToBlob env (drawScaled env c (32 / 100)) f (2 / 100) w"
    by (simp only: optimize_loop.simps Let_def)
  from Nil show ?case unfolding unf by (rule canvasToBlob_from_empty)
next
  case (Cons s ss)
  let ?att = "compress env (drawScaled env c s) f t a (Some EXTREME) []"
  show ?case
  proof (cases "fst ?att")
    case (Inl e)
    show ?thesis
      using Cons.prems optimize_loop_error[OF Inl, of ss "[]"] optimize_loop_error[OF Inl, of ss w]
      by (simp del: optimize_loop.simps)
  next
    case (Inr b)
    show ?thesis
    proof (cases "of_nat (length b) \<le> t")
      case True
      show ?thesis
        using Cons.prems optimize_loop_fit[OF Inr True, of ss "[]"]
          optimize_loop_fit[OF Inr True, of ss w]
        by (simp del: optimize_loop.simps)
    next
      case False
      then have lt: "t < of_nat (length b)" by simp
      obtain r0 u0 where e: "optimize_loop env c f t a ss [] = (r0, u0)"
        by (cases "optimize_loop env c f t a ss []")
      from Cons.prems have "optimize_loop env c f t a ss (snd ?att) = (r, ws)"
        by (simp add: optimize_loop_fail[OF Inr lt] del: optimize_loop.simps)
      with Cons.IH[OF e, of "snd ?att"] have "r = r0" "ws = snd ?att @ u0" by simp_all
      with Cons.IH[OF e, of "w @ snd ?att"] show ?thesis
        by (simp add: optimize_loop_fail[OF Inr lt] del: optimize_loop.simps)
    qed
  qed
qed

lemma advancedOptimize_from_empty:
  "advancedOptimize env c f t a [] = (r, ws) \<Longrightarrow> advancedOptimize env c f t a w = (r, w @ ws)"
  unfolding advancedOptimize_def by (rule optimize_loop_from_empty)

lemma processVersion_from_empty:
  assumes "processVersion h img file a opts i p [] = (r, ws)"
  shows "processVersion h img file a opts i p w = (r, w @ ws)"
proof (cases p)
  case None
  with assms show ?thesis by (simp add: processVersion_def)
next
  case (Some preset)
  define dimensions where
    "dimensions = calculateDimensions h img (maxDimension preset) (aspectRatio preset)"
  show ?thesis
  proof (cases "createOptimizedCanvas h img dimensions a")
    case (Inl msg)
    with Some assms show ?thesis by (simp add: processVersion_def Let_def dimensions_def)
  next
    case (Inr canvas)
    define fmt where "fmt = (case outputFormat opts of
                                None \<Rightarrow> suggestedFormat a
                              | Some s \<Rightarrow> if s = [] then suggestedFormat a else s)"
    let ?c = "compress (encoder h) canvas fmt (targetSize preset) a (quality opts)"
    let ?o = "advancedOptimize (encoder h) canvas fmt (targetSize preset) a"
    obtain r1 u1 where c0: "?c [] = (r1, u1)" by (cases "?c []")
    then have cw: "?c w = (r1, w @ u1)" by (rule compress_from_empty)
    obtain r2 u2 where o0: "?o [] = (r2, u2)" by (cases "?o []")
    then have o1: "?o u1 = (r2, u1 @ u2)" and ow: "?o (w @ u1) = (r2, (w @ u1) @ u2)"
      by (rule advancedOptimize_from_empty)+
    have unf: "\<And>w. processVersion h img file a opts i p w =
      (case ?c w of
         (Inl e, w1) \<Rightarrow> (Inl (EncodingError e), w1)
       | (Inr blob1, w1) \<Rightarrow>
          (case (if of_nat (length blob1) > targetSize preset * (112 / 100)
                 then ?o w1 else (Inr blob1, w1)) of
             (Inl e, w2) \<Rightarrow> (Inl (EncodingError e), w2)
           | (Inr blob2, w2) \<Rightarrow>
               (case generateMetadata h file blob2 dimensions fmt a preset i of
                  Inl msg \<Rightarrow> (Inl (HostError msg), w2)
                | Inr md \<Rightarrow>
                    (case createObjectURL h blob2 of
                       Inl msg \<Rightarrow> (Inl (HostError msg), w2)
                     | Inr url \<Rightarrow>
                         (Inr \<lparr>blob = blob2, metadata = md, preview = url,
                               dataUrl = None\<rparr>, w2)))))"
      using Some Inr
      by (simp only: processVersion_def Let_def dimensions_def fmt_def option.case sum.case)
    from assms show ?thesis
      unfolding unf c0 cw
      by (cases r1) (auto simp: o1 ow split: if_splits sum.splits)
  qed
qed

lemma processVersions_loop_result:
  "processVersions_loop h img file a opts n ps i versions out w =
     (versions @ concat (map (\<lambda>(j, p).
          case fst (processVersion h img file a opts j p []) of
            Inr v \<Rightarrow> [v] | Inl e \<Rightarrow> []) (zip [i..<i + length ps] ps)),
      out @ map (\<lambda>(j, p).
          case fst (processVersion h img file a opts j p []) of
            Inr v \<Rightarrow> VersionComplete j n (metadata v)
          | Inl e \<Rightarrow> ConsoleError j e) (zip [i..<i + length ps] ps),
      w @ concat (map (\<lambda>(j, p). snd (processVersion h img file a opts j p []))
                   (zip [i..<i + length ps] ps)))"
proof (induction ps arbitrary: i versions out w)
  case Nil
  show ?case by simp
next
  case (Cons p ps)
  obtain r u where e: "processVersion h img file a opts i p [] = (r, u)"
    by (cases "processVersion h img file a opts i p []")
  then have pw: "processVersion h img file a opts i p w = (r, w @ u)"
    by (rule processVersion_from_empty)
  have upt: "[i..<i + length (p # ps)] = i # [Suc i..<Suc i + length ps]"
    by (simp add: upt_rec)
  show ?case
    unfolding upt
    by (cases r) (simp_all add: pw e Cons.IH)
qed

lemma concat_singletons_length:
  "length (concat (map (\<lambda>x. case f x of Inr v \<Rightarrow> [v] | Inl e \<Rightarrow> []) xs)) \<le> length xs"
proof (induction xs)
  case Nil
  show ?case by simp
next
  case (Cons x xs)
  then show ?case by (cases "f x") simp_all
qed

text \<open>
  C6. The versions returned for a list of presets are, in preset order, the versions of
  exactly those presets whose own pass through the \<^verbatim>\<open>try\<close> block succeeds; a
  failing pass contributes nothing and is logged on the console, and the loop goes on
  with the next preset. What one preset contributes depends only on that preset and its
  index, so a failure elsewhere neither removes, reorders nor alters it, and the number
  of versions is between 0 and the number of presets.
\<close>

theorem processVersions_partial_results:
  "fst (processVersions h img file presets a opts out w) =
     concat (map (\<lambda>(i, p).
        case fst (processVersion h img file a opts i p []) of
          Inr v \<Rightarrow> [v] | Inl e \<Rightarrow> []) (zip [0..<length presets] presets))
   \<and> length (fst (processVersions h img file presets a opts out w)) \<le> length presets
   \<and> fst (snd (processVersions h img file presets a opts out w)) =
     out @ map (\<lambda>(i, p).
        case fst (processVersion h img file a opts i p []) of
          Inr v \<Rightarrow> VersionComplete i (length presets) (metadata v)
        | Inl e \<Rightarrow> ConsoleError i e) (zip [0..<length presets] presets)"
proof -
  have r: "fst (processVersions h img file presets a opts out w) =
     concat (map (\<lambda>(i, p).
        case fst (processVersion h img file a opts i p []) of
          Inr v \<Rightarrow> [v] | Inl e \<Rightarrow> []) (zip [0..<length presets] presets))"
    by (simp add: processVersions_def processVersions_loop_result)
  have "length (concat (map (\<lambda>x. case (\<lambda>(i, p). fst (processVersion h img file a opts i p [])) x of
          Inr v \<Rightarrow> [v] | Inl e \<Rightarrow> []) (zip [0..<length presets] presets)))
        \<le> length (zip [0..<length presets] presets)"
    by (rule concat_singletons_length)
  then have l: "length (fst (processVersions h img file presets a opts out w)) \<le> length presets"
    unfolding r by (simp add: case_prod_unfold)
  have o: "fst (snd (processVersions h img file presets a opts out w)) =
     out @ map (\<lambda>(i, p).
        case fst (processVersion h img file a opts i p []) of
          Inr v \<Rightarrow> VersionComplete i (length presets) (metadata v)
        | Inl e \<Rightarrow> ConsoleError i e) (zip [0..<length presets] presets)"
    by (simp add: processVersions_def processVersions_loop_result)
  from r l o show ?thesis by blast
qed

section \<open>AdvancedProcessor theorems\<close>

lemma clamp_int_range: "0 \<le> clamp_int (x :: rat) \<and> clamp_int x \<le> 255"
proof -
  define c where "c = min (max x 0) 255"
  define f where "f = \<lfloor>c\<rfloor>"
  have c: "0 \<le> c" "c \<le> 255" by (simp_all add: c_def)
  have fc: "of_int f \<le> c" "c < of_int f + 1" unfolding f_def by linarith+
  have f0: "0 \<le> f" unfolding f_def using c by (simp add: le_floor_iff)
  have f255: "f \<le> 255" using fc c by linarith
  have top: "f = 255 \<Longrightarrow> c = of_int f" using fc c by simp
  have "clamp_int x = (if of_int f + 1 / 2 < c then f + 1
                      else if c < of_int f + 1 / 2 then f
                      else if even f then f else f + 1)"
    unfolding clamp_int_def Let_def c_def f_def by (rule refl)
  moreover have "f + 1 \<le> 255" if "\<not> c < of_int f + 1 / 2"
  proof -
    have "f \<noteq> 255" using that top by auto
    with f255 show ?thesis by linarith
  qed
  ultimately show ?thesis using f0 f255 by (auto simp: not_less)
qed

lemma toUint8Clamp_uint: "uint (toUint8Clamp (x :: rat)) = clamp_int x"
proof -
  have "toUint8Clamp x = word_of_int (clamp_int x)"
    unfolding toUint8Clamp_def clamp_int_def Let_def by (rule refl)
  moreover have "0 \<le> clamp_int x" "clamp_int x < 2 ^ 8"
    using clamp_int_range[of x] by simp_all
  ultimately show ?thesis
    by (simp add: uint_word_of_int take_bit_eq_mod)
qed

lemma clamp_int_near:
  assumes "0 \<le> x" "x \<le> 255"
  shows "\<bar>of_int (clamp_int x) - (x :: rat)\<bar> \<le> 1 / 2"
proof -
  have c: "min (max x 0) 255 = x" using assms by simp
  have "of_int \<lfloor>x\<rfloor> \<le> x" "x < of_int \<lfloor>x\<rfloor> + 1" by linarith+
  then show ?thesis
    unfolding clamp_int_def Let_def c by auto
qed

lemma clamp_int_top:
  assumes "255 \<le> (x :: rat)"
  shows "clamp_int x = 255"
proof -
  have c: "min (max x 0) 255 = 255" using assms by simp
  show ?thesis unfolding clamp_int_def Let_def c by simp
qed

lemma clamp_int_nearest:
  assumes "0 \<le> n" "n \<le> 255" "\<bar>(x :: rat) - of_int n\<bar> < 1 / 2"
  shows "clamp_int x = n"
proof -
  define c where "c = min (max x 0) 255"
  have n: "(0 :: rat) \<le> of_int n" "of_int n \<le> (255 :: rat)" using assms(1,2) by simp_all
  have cn: "\<bar>c - of_int n\<bar> < 1 / 2"
  proof (cases "x < 0")
    case True
    then have "c = 0" by (simp add: c_def)
    moreover have "n = 0"
    proof (rule ccontr)
      assume "n \<noteq> 0"
      with assms(1) have "1 \<le> n" by simp
      then have "(1 :: rat) \<le> of_int n" by simp
      with True assms(3) show False by linarith
    qed
    ultimately show ?thesis by simp
  next
    case False
    show ?thesis
    proof (cases "255 < x")
      case True
      then have "c = 255" by (simp add: c_def)
      moreover have "n = 255"
      proof (rule ccontr)
        assume "n \<noteq> 255"
        with assms(2) have "n \<le> 254" by simp
        then have "of_int n \<le> (254 :: rat)" by simp
        with True assms(3) show False by linarith
      qed
      ultimately show ?thesis by simp
    next
      case f2: False
      with False have "c = x" by (simp add: c_def)
      with assms(3) show ?thesis by simp
    qed
  qed
  have unf: "clamp_int x = (if of_int \<lfloor>c\<rfloor> + 1 / 2 < c then \<lfloor>c\<rfloor> + 1
                      else if c < of_int \<lfloor>c\<rfloor> + 1 / 2 then \<lfloor>c\<rfloor>
                      else if even \<lfloor>c\<rfloor> then \<lfloor>c\<rfloor> else \<lfloor>c\<rfloor> + 1)"
    unfolding clamp_int_def Let_def c_def by (rule refl)
  show ?thesis
  proof (cases "of_int n \<le> c")
    case True
    have "\<lfloor>c\<rfloor> = n" using cn True by (intro floor_unique) linarith+
    then show ?thesis using cn True unfolding unf by auto
  next
    case False
    have "\<lfloor>c\<rfloor> = n - 1" using cn False by (intro floor_unique) (simp, linarith)+
    then show ?thesis using cn False unfolding unf by auto
  qed
qed


lemma quantize_int_idem:
  assumes v: "0 \<le> v" "v \<le> 255"
  shows "quantize_int s (quantize_int s v) = quantize_int s v"
proof -
  define k where "k = \<lfloor>of_int v / s + 1 / 2\<rfloor>"
  define y where "y = of_int k * s"
  define u where "u = clamp_int y"
  define k' where "k' = \<lfloor>of_int u / s + 1 / 2\<rfloor>"
  have u_def': "quantize_int s v = u" by (simp add: quantize_int_def u_def y_def k_def)
  have goal: "quantize_int s u = clamp_int (of_int k' * s)"
    by (simp add: quantize_int_def k'_def)
  have ur: "0 \<le> u" "u \<le> 255" using clamp_int_range[of y] by (simp_all add: u_def)
  have vr: "(0 :: rat) \<le> of_int v" "of_int v \<le> (255 :: rat)" using v by simp_all
  have kf: "of_int k \<le> of_int v / s + 1 / 2" "of_int v / s + 1 / 2 < of_int k + 1"
    unfolding k_def by linarith+
  have ym: "(of_int k - 1 / 2) * s = y - s / 2" and yp: "(of_int k + 1 / 2) * s = y + s / 2"
    by (simp_all add: y_def algebra_simps)
  have same: "u = v \<Longrightarrow> clamp_int (of_int k' * s) = u"
    by (simp add: k'_def k_def[symmetric] y_def[symmetric] u_def[symmetric])
  have "clamp_int (of_int k' * s) = u"
  proof (cases "s = 0")
    case True
    then have "y = 0" by (simp add: y_def)
    then have "u = 0" using clamp_int_nearest[of 0 0] by (simp add: u_def)
    moreover have "clamp_int (of_int k' * s) = 0" using True clamp_int_nearest[of 0 0] by simp
    ultimately show ?thesis by simp
  next
    case nz: False
    show ?thesis
    proof (cases "0 < s")
      case pos: True
      have "of_int k - 1 / 2 \<le> of_int v / s" using kf(1) by linarith
      then have "(of_int k - 1 / 2) * s \<le> of_int v" using pos by (simp only: pos_le_divide_eq)
      then have y_hi: "y \<le> of_int v + s / 2" unfolding ym by linarith
      have "of_int v / s < of_int k + 1 / 2" using kf(2) by linarith
      then have "of_int v < (of_int k + 1 / 2) * s" using pos by (simp only: pos_divide_less_eq)
      then have y_lo: "of_int v + s / 2 < y + s" unfolding yp by linarith
      show ?thesis
      proof (cases "s \<le> 1")
        case True
        have "\<bar>y - of_int v\<bar> < 1 / 2"
        proof (cases "s = 1")
          case True
          then have "of_int k \<le> (of_int v :: rat) + 1 / 2" "(of_int v :: rat) - 1 / 2 < of_int k"
            using y_hi y_lo by (simp_all add: y_def)
          then have "(of_int k :: rat) < of_int (v + 1)" "(of_int (v - 1) :: rat) < of_int k"
            by simp_all
          then have "k < v + 1" "v - 1 < k" by (simp_all only: of_int_less_iff)
          then have "k = v" by simp
          with True show ?thesis by (simp add: y_def)
        next
          case False
          with True have "s < 1" by simp
          with y_hi y_lo show ?thesis by linarith
        qed
        then have "u = v" unfolding u_def using v by (intro clamp_int_nearest)
        then show ?thesis by (rule same)
      next
        case False
        then have s1: "1 < s" by simp
        have "0 \<le> of_int v / s + 1 / 2" using vr pos by simp
        then have "0 \<le> k" unfolding k_def by (simp add: le_floor_iff)
        then have y0: "0 \<le> y" using pos by (simp add: y_def)
        show ?thesis
        proof (cases "y \<le> 255")
          case True
          have near: "\<bar>of_int u - y\<bar> \<le> 1 / 2" unfolding u_def using y0 True by (rule clamp_int_near)
          have "(of_int k - 1 / 2) * s \<le> of_int u"
            unfolding ym yp using near s1 by linarith
          then have "of_int k - 1 / 2 \<le> of_int u / s"
            using pos by (simp only: pos_le_divide_eq)
          then have a: "of_int k \<le> of_int u / s + 1 / 2" by linarith
          have "of_int u < (of_int k + 1 / 2) * s"
            unfolding ym yp using near s1 by linarith
          then have "of_int u / s < of_int k + 1 / 2"
            using pos by (simp only: pos_divide_less_eq)
          then have b: "of_int u / s + 1 / 2 < of_int k + 1" by linarith
          have "k' = k" unfolding k'_def using a b by (intro floor_unique)
          then show ?thesis by (simp add: u_def y_def)
        next
          case False
          then have "u = 255" unfolding u_def by (intro clamp_int_top) simp
          have "(of_int v :: rat) / s \<le> of_int u / s"
            using vr pos \<open>u = 255\<close> by (intro divide_right_mono) simp_all
          then have "k \<le> k'" unfolding k_def k'_def by (intro floor_mono) simp
          then have "of_int k * s \<le> of_int k' * s" using pos by (intro mult_right_mono) simp_all
          with False have "255 \<le> of_int k' * s" by (simp add: y_def)
          then have "clamp_int (of_int k' * s) = 255" by (rule clamp_int_top)
          with \<open>u = 255\<close> show ?thesis by simp
        qed
      qed
    next
      case False
      with nz have neg: "s < 0" by simp
      have "of_int k - 1 / 2 \<le> of_int v / s" using kf(1) by linarith
      then have "of_int v \<le> (of_int k - 1 / 2) * s" using neg by (simp only: neg_le_divide_eq)
      then have y_lo: "of_int v + s / 2 \<le> y" unfolding ym by linarith
      have "of_int v / s < of_int k + 1 / 2" using kf(2) by linarith
      then have "(of_int k + 1 / 2) * s < of_int v" using neg by (simp only: neg_divide_less_eq)
      then have y_hi: "y + s < of_int v + s / 2" unfolding yp by linarith
      show ?thesis
      proof (cases "- 1 \<le> s")
        case True
        have "\<bar>y - of_int v\<bar> < 1 / 2"
        proof (cases "s = - 1")
          case True
          then have "(of_int v :: rat) - 1 / 2 \<le> of_int (- k)" "(of_int (- k) :: rat) < of_int v + 1 / 2"
            using y_hi y_lo by (simp_all add: y_def)
          then have "(of_int (v - 1) :: rat) < of_int (- k)" "(of_int (- k) :: rat) < of_int (v + 1)"
            by simp_all
          then have "v - 1 < - k" "- k < v + 1" by (simp_all only: of_int_less_iff)
          then have "- k = v" by simp
          then have "(of_int v :: rat) = - of_int k" by (metis of_int_minus)
          with True show ?thesis by (simp add: y_def)
        next
          case False
          with True have "- 1 < s" by simp
          with y_hi y_lo show ?thesis by linarith
        qed
        then have "u = v" unfolding u_def using v by (intro clamp_int_nearest)
        then show ?thesis by (rule same)
      next
        case False
        then have s1: "s < - 1" by simp
        have "of_int v / s \<le> 0" using vr neg by (simp add: divide_nonneg_neg)
        with kf(1) have "(of_int k :: rat) < of_int 1" by simp
        then have "k < 1" by (simp only: of_int_less_iff)
        then have "(of_int k :: rat) \<le> 0" by simp
        then have y0: "0 \<le> y" using neg unfolding y_def by (intro mult_nonpos_nonpos) simp_all
        show ?thesis
        proof (cases "y \<le> 255")
          case True
          have near: "\<bar>of_int u - y\<bar> \<le> 1 / 2" unfolding u_def using y0 True by (rule clamp_int_near)
          have "of_int u \<le> (of_int k - 1 / 2) * s"
            unfolding ym yp using near s1 by linarith
          then have "of_int k - 1 / 2 \<le> of_int u / s"
            using neg by (simp only: neg_le_divide_eq)
          then have a: "of_int k \<le> of_int u / s + 1 / 2" by linarith
          have "(of_int k + 1 / 2) * s < of_int u"
            unfolding ym yp using near s1 by linarith
          then have "of_int u / s < of_int k + 1 / 2"
            using neg by (simp only: neg_divide_less_eq)
          then have b: "of_int u / s + 1 / 2 < of_int k + 1" by linarith
          have "k' = k" unfolding k'_def using a b by (intro floor_unique)
          then show ?thesis by (simp add: u_def y_def)
        next
          case False
          then have "u = 255" unfolding u_def by (intro clamp_int_top) simp
          have "(of_int u :: rat) / s \<le> of_int v / s"
            using vr neg \<open>u = 255\<close> by (intro divide_right_mono_neg) simp_all
          then have "k' \<le> k" unfolding k_def k'_def by (intro floor_mono) simp
          then have "of_int k * s \<le> of_int k' * s" using neg by (intro mult_right_mono_neg) simp_all
          with False have "255 \<le> of_int k' * s" by (simp add: y_def)
          then have "clamp_int (of_int k' * s) = 255" by (rule clamp_int_top)
          with \<open>u = 255\<close> show ?thesis by simp
        qed
      qed
    qed
  qed
  then show ?thesis by (simp add: u_def' goal)
qed


lemma byte_value_uint: "(byte_value v :: rat) = of_int (uint v)"
  by (simp add: byte_value_def)

lemma quantize_uint: "uint (quantize s v) = quantize_int s (uint v)"
  unfolding quantize_def quantize_int_def toUint8Clamp_uint math_round_def byte_value_uint
  by (rule refl)

lemma quantize_idem: "quantize s (quantize s v) = quantize s v"
proof -
  have "uint v < 2 ^ LENGTH(8)" by (rule uint_lt2p)
  then have r: "0 \<le> uint v" "uint v \<le> 255" by simp_all
  have "uint (quantize s (quantize s v)) = quantize_int s (quantize_int s (uint v))"
    by (simp only: quantize_uint)
  also have "\<dots> = quantize_int s (uint v)" using r by (rule quantize_int_idem)
  also have "\<dots> = uint (quantize s v)" by (simp only: quantize_uint)
  finally show ?thesis by (simp only: word_uint_eq_iff)
qed

lemma quantize_pixels_idem:
  "quantize_pixels s (quantize_pixels s xs) = quantize_pixels s xs"
  by (induction s xs rule: quantize_pixels.induct) (simp_all add: quantize_idem)

text \<open>
  C8. Quantizing an already quantized buffer with the same \<open>levels\<close> gives the same
  buffer, byte for byte, whatever the buffer and whatever \<open>levels\<close>.
\<close>

theorem color_quantization_idempotent:
  "applyColorQuantization (applyColorQuantization data width height levels) width height levels
     = applyColorQuantization data width height levels"
  by (simp add: applyColorQuantization_def Let_def quantize_pixels_idem)


lemma same_alpha_refl: "same_alpha xs xs"
  by (simp add: same_alpha_def)

lemma same_alpha_trans: "same_alpha xs ys \<Longrightarrow> same_alpha ys zs \<Longrightarrow> same_alpha xs zs"
  by (simp add: same_alpha_def)

lemma same_alpha_update:
  assumes "i mod 4 \<noteq> 3"
  shows "same_alpha (xs[i := v]) xs"
proof -
  have "i \<noteq> 4 * k + 3" for k
  proof
    assume "i = 4 * k + 3"
    then have "i mod 4 = 3" by presburger
    with assms show False by simp
  qed
  then show ?thesis by (simp add: same_alpha_def)
qed

lemma same_alpha_rgb:
  "same_alpha (xs[p * 4 := u, p * 4 + 1 := v, p * 4 + 2 := w]) xs"
proof -
  have "(p * 4) mod 4 \<noteq> 3" "(p * 4 + 1) mod 4 \<noteq> 3" "(p * 4 + 2) mod 4 \<noteq> 3"
    by presburger+
  then show ?thesis
    by (meson same_alpha_update same_alpha_trans)
qed

lemma same_alpha_fold:
  assumes "\<And>a s. a \<in> set as \<Longrightarrow> same_alpha (f a s) s"
  shows "same_alpha (fold f as s) s"
  using assms
proof (induction as arbitrary: s)
  case Nil
  show ?case by (simp add: same_alpha_refl)
next
  case (Cons a as)
  have "same_alpha (fold f as (f a s)) (f a s)" by (rule Cons.IH) (simp add: Cons.prems)
  moreover have "same_alpha (f a s) s" by (rule Cons.prems) simp
  ultimately show ?case by (simp add: same_alpha_trans)
qed

lemma same_alpha_channel: "same_alpha xs ys \<Longrightarrow> alpha_channel xs = alpha_channel ys"
  by (simp add: same_alpha_def alpha_channel_def)

lemma rgb_step_alpha:
  "same_alpha ((\<lambda>(dy, dx) data.
                  data[idx dy dx * 4 := R dy dx data,
                       idx dy dx * 4 + 1 := G dy dx data,
                       idx dy dx * 4 + 2 := B dy dx data]) a s) s"
  by (cases a) (simp only: prod.case same_alpha_rgb)

lemma chroma_block_alpha: "same_alpha (chroma_block strength width height y x data) data"
  unfolding chroma_block_def Let_def
  by (rule same_alpha_fold) (rule rgb_step_alpha)

lemma applyChromaSubsampling_alpha:
  "same_alpha (applyChromaSubsampling data width height strength) data"
  unfolding applyChromaSubsampling_def
  by (intro same_alpha_fold chroma_block_alpha)

lemma blur_step_alpha:
  "same_alpha (if c then output
               else (case q of (r, g, b, totalWeight) \<Rightarrow>
                       output[p * 4 := toUint8Clamp (r / totalWeight),
                              p * 4 + 1 := toUint8Clamp (g / totalWeight),
                              p * 4 + 2 := toUint8Clamp (b / totalWeight)])) output"
  by (cases c) (simp_all only: if_True if_False case_prod_unfold
                  same_alpha_refl same_alpha_rgb)

lemma applySelectiveBlur_alpha:
  "same_alpha (applySelectiveBlur data width height edgeMap blurRadius) data"
  unfolding applySelectiveBlur_def Let_def
  by (intro same_alpha_fold blur_step_alpha)

lemma sharpen_pixel_alpha:
  "same_alpha (sharpen_pixel data width localStrength (p * 4) output) output"
  unfolding sharpen_pixel_def Let_def
proof (rule same_alpha_fold)
  fix c :: nat and s :: "byte list" and v :: byte
  assume "c \<in> set [0..<3]"
  then have "c < 3" by simp
  then have "(p * 4 + c) mod 4 \<noteq> 3" by presburger
  then show "same_alpha (s[p * 4 + c := v]) s" for v by (rule same_alpha_update)
qed

lemma sharpen_step_alpha:
  "same_alpha (if c then output else sharpen_pixel data width ls (p * 4) output) output"
  by (cases c) (simp_all only: if_True if_False same_alpha_refl sharpen_pixel_alpha)

lemma applyAdaptiveSharpening_alpha:
  "same_alpha (applyAdaptiveSharpening data width height edgeMap strength) data"
  unfolding applyAdaptiveSharpening_def Let_def
  by (intro same_alpha_fold sharpen_step_alpha)

lemma quantize_pixels_alpha: "same_alpha (quantize_pixels step xs) xs"
proof (induction step xs rule: quantize_pixels.induct)
  case (1 step r g b a rest)
  have ih: "quantize_pixels step rest ! (4 * j + 3) = rest ! (4 * j + 3)" for j
    using "1.IH" by (simp add: same_alpha_def)
  have "(quantize step r # quantize step g # quantize step b # a # quantize_pixels step rest)
          ! (4 * k + 3) = (r # g # b # a # rest) ! (4 * k + 3)" for k
  proof (cases k)
    case 0
    then show ?thesis by simp
  next
    case (Suc j)
    have e: "4 * k + 3 = Suc (Suc (Suc (Suc (4 * j + 3))))" using Suc by simp
    show ?thesis unfolding e nth_Cons_Suc by (rule ih)
  qed
  moreover have "length (quantize_pixels step rest) = length rest"
    using "1.IH" by (simp add: same_alpha_def)
  ultimately show ?case by (simp add: same_alpha_def)
next
  case (2 step r g b)
  have "4 * k + 3 = Suc (Suc (Suc (4 * k)))" for k by simp
  then show ?case by (simp add: same_alpha_def)
next
  case (3 step r g)
  have "4 * k + 3 = Suc (Suc (Suc (4 * k)))" for k by simp
  then show ?case by (simp add: same_alpha_def)
next
  case (4 step r)
  have "4 * k + 3 = Suc (Suc (Suc (4 * k)))" for k by simp
  then show ?case by (simp add: same_alpha_def)
next
  case (5 step)
  show ?case by (simp add: same_alpha_def)
qed

lemma applyColorQuantization_alpha:
  "same_alpha (applyColorQuantization data width height levels) data"
  by (simp add: applyColorQuantization_def Let_def quantize_pixels_alpha)

text \<open>
  C9. Each of the four preprocessing stages leaves every alpha byte of the buffer as it
  was, and so does the whole preprocessing of \<open>createOptimizedCanvas\<close>, with or without
  the conditional sharpening.
\<close>

theorem preprocessing_preserves_alpha:
  "alpha_channel (applyChromaSubsampling data width height strength) = alpha_channel data
   \<and> alpha_channel (applySelectiveBlur data width height edgeMap blurRadius)
       = alpha_channel data
   \<and> alpha_channel (applyColorQuantization data width height levels) = alpha_channel data
   \<and> alpha_channel (applyAdaptiveSharpening data width height edgeMap strength)
       = alpha_channel data
   \<and> alpha_channel (preprocess data width height a scale) = alpha_channel data"
proof -
  let ?e = "detectEdges data width height"
  let ?d1 = "applyChromaSubsampling data width height (78 / 100)"
  let ?d2 = "applySelectiveBlur ?d1 width height ?e (14 / 10)"
  let ?d3 = "applyColorQuantization ?d2 width height 218"
  let ?d4 = "applyAdaptiveSharpening ?d3 width height ?e (75 / 100)"
  have d1: "same_alpha ?d1 data" by (rule applyChromaSubsampling_alpha)
  have "same_alpha ?d2 ?d1" by (rule applySelectiveBlur_alpha)
  with d1 have d2: "same_alpha ?d2 data" by (meson same_alpha_trans)
  have "same_alpha ?d3 ?d2" by (rule applyColorQuantization_alpha)
  with d2 have d3: "same_alpha ?d3 data" by (meson same_alpha_trans)
  have "same_alpha ?d4 ?d3" by (rule applyAdaptiveSharpening_alpha)
  with d3 have d4: "same_alpha ?d4 data" by (meson same_alpha_trans)
  have "preprocess data width height a scale =
          (if imageType a = ''photo'' \<and> scale < 88 / 100 then ?d4 else ?d3)"
    unfolding preprocess_def Let_def by (rule refl)
  with d3 d4 have "same_alpha (preprocess data width height a scale) data"
    by (cases "imageType a = ''photo'' \<and> scale < 88 / 100") simp_all
  then show ?thesis
    by (simp add: same_alpha_channel applyChromaSubsampling_alpha applySelectiveBlur_alpha
          applyColorQuantization_alpha applyAdaptiveSharpening_alpha)
qed














end
